theory Spec2Isabelle
  imports Main
begin

section \<open>The strings functions and method constants the package uses\<close>

text \<open>
  Go strings are byte sequences; \<^typ>\<open>string\<close> is a list of 8-bit characters, so
  lengths and indices agree. The functions below are those of Go's \<^verbatim>\<open>strings\<close>
  package that \<^verbatim>\<open>mux.go\<close> and the group file call, written after their library
  documentation.
\<close>

definition HasPrefix :: "string \<Rightarrow> string \<Rightarrow> bool" where
  "HasPrefix s pre = (length pre \<le> length s \<and> take (length pre) s = pre)"

definition HasSuffix :: "string \<Rightarrow> string \<Rightarrow> bool" where
  "HasSuffix s suf = (length suf \<le> length s \<and> drop (length s - length suf) s = suf)"

definition TrimSuffix :: "string \<Rightarrow> string \<Rightarrow> string" where
  "TrimSuffix s suf = (if HasSuffix s suf then take (length s - length suf) s else s)"

text \<open>\<^verbatim>\<open>strings.Index\<close>: the position of the first occurrence of \<open>sep\<close>, if any.\<close>

fun Index :: "string \<Rightarrow> string \<Rightarrow> nat option" where
  "Index [] sep = (if sep = [] then Some 0 else None)"
| "Index (c # cs) sep =
     (if HasPrefix (c # cs) sep then Some 0
      else (case Index cs sep of None \<Rightarrow> None | Some i \<Rightarrow> Some (Suc i)))"

text \<open>\<^verbatim>\<open>strings.Cut\<close>: the text before and after the first \<open>sep\<close>, and whether it was found.\<close>

definition Cut :: "string \<Rightarrow> string \<Rightarrow> string \<times> string \<times> bool" where
  "Cut s sep =
     (case Index s sep of
        None \<Rightarrow> (s, [], False)
      | Some i \<Rightarrow> (take i s, drop (i + length sep) s, True))"

definition MethodGet :: string where "MethodGet = ''GET''"
definition MethodPost :: string where "MethodPost = ''POST''"
definition MethodPut :: string where "MethodPut = ''PUT''"
definition MethodDelete :: string where "MethodDelete = ''DELETE''"
definition MethodPatch :: string where "MethodPatch = ''PATCH''"
definition MethodHead :: string where "MethodHead = ''HEAD''"
definition MethodOptions :: string where "MethodOptions = ''OPTIONS''"
definition MethodConnect :: string where "MethodConnect = ''CONNECT''"
definition MethodTrace :: string where "MethodTrace = ''TRACE''"

section \<open>Pattern helpers (mux.go)\<close>

text \<open>\<^verbatim>\<open>splitMethodPath\<close>: the cases of the \<^verbatim>\<open>switch\<close> in the order of the source.\<close>

definition splitMethodPath :: "string \<Rightarrow> string \<times> string" where
  "splitMethodPath pattern =
     (case Cut pattern '' '' of
        (method, path, found) \<Rightarrow>
          if \<not> found then ([], pattern)
          else if method = MethodGet \<or> method = MethodPost \<or> method = MethodPut
                  \<or> method = MethodDelete \<or> method = MethodPatch \<or> method = MethodHead
                  \<or> method = MethodOptions \<or> method = MethodConnect \<or> method = MethodTrace
               then (method, path)
               else ([], pattern))"

definition joinPattern :: "string \<Rightarrow> string \<Rightarrow> string" where
  "joinPattern prefix pattern =
     (case splitMethodPath pattern of
        (method, path) \<Rightarrow>
          let prefix' = TrimSuffix prefix ''/'';
              path' = (if \<not> HasPrefix path ''/'' then ''/'' @ path else path);
              joined = prefix' @ path'
          in if method \<noteq> [] then method @ '' '' @ joined else joined)"

section \<open>Handlers, middleware and the wrapping loop (mux.go)\<close>

text \<open>
  A handler is opaque: the type variable \<open>'h\<close>. A value of Go type
  \<^verbatim>\<open>func(http.Handler) http.Handler\<close> is either \<^verbatim>\<open>nil\<close> (\<open>None\<close>) or a function that,
  called on a handler, returns a handler or panics.
\<close>

datatype error =
    NilMiddleware      \<comment> \<open>panic "hmux: nil middleware passed to Use"\<close>
  | InvalidPrefix      \<comment> \<open>panic "hmux: group prefix must be empty or start with /"\<close>
  | NilFuncCall        \<comment> \<open>runtime panic: call of a nil function value\<close>
  | NilPointer         \<comment> \<open>runtime panic: nil pointer dereference\<close>
  | IndexOutOfRange    \<comment> \<open>runtime panic: index out of range\<close>
  | ServeMuxPanic      \<comment> \<open>panic raised by http.ServeMux.Handle\<close>

type_synonym 'h middleware = "('h \<Rightarrow> error + 'h) option"

text \<open>
  The loop of \<^verbatim>\<open>wrap\<close>: \<^verbatim>\<open>for i := len(mw) - 1; i >= 0; i-- { h = mw[i](h) }\<close>,
  with the index a signed integer as in the source.
\<close>

function wrap_loop :: "'h middleware list \<Rightarrow> int \<Rightarrow> 'h \<Rightarrow> error + 'h" where
  "wrap_loop mw i h =
     (if i \<ge> 0 then
        (if nat i < length mw then
           (case mw ! nat i of
              None \<Rightarrow> Inl NilFuncCall
            | Some f \<Rightarrow> (case f h of Inl e \<Rightarrow> Inl e | Inr h' \<Rightarrow> wrap_loop mw (i - 1) h'))
         else Inl IndexOutOfRange)
      else Inr h)"
  by pat_completeness auto
termination
  by (relation "measure (\<lambda>(mw, i, h). nat (i + 1))") auto

definition wrap :: "'h \<Rightarrow> 'h middleware list \<Rightarrow> error + 'h" where
  "wrap h mw = wrap_loop mw (int (length mw) - 1) h"

text \<open>\<^verbatim>\<open>Chain\<close> returns a closure, never \<^verbatim>\<open>nil\<close>; the closure calls \<^verbatim>\<open>wrap\<close>.\<close>

definition Chain :: "'h middleware list \<Rightarrow> 'h middleware" where
  "Chain mw = Some (\<lambda>h. wrap h mw)"

text \<open>
  Middleware written the usual way: a total function on handlers. For handlers that
  transform a state \<open>'s\<close> (the request's observable effects), \<open>around pre post\<close> is the
  middleware whose handler runs \<open>pre\<close>, then the next handler, then \<open>post\<close>; the
  \<^verbatim>\<open>recordingMiddleware\<close> of mux_test.go is the instance that appends
  \<open>name:enter\<close> and \<open>name:exit\<close> to a record of strings.
\<close>

definition total_mw :: "('h \<Rightarrow> 'h) \<Rightarrow> 'h middleware" where
  "total_mw f = Some (\<lambda>h. Inr (f h))"

definition around :: "('s \<Rightarrow> 's) \<Rightarrow> ('s \<Rightarrow> 's) \<Rightarrow> ('s \<Rightarrow> 's) middleware" where
  "around pre post = total_mw (\<lambda>next s. post (next (pre s)))"

definition recordingMiddleware :: "string \<Rightarrow> (string list \<Rightarrow> string list) middleware" where
  "recordingMiddleware name =
     Some (\<lambda>next. Inr (\<lambda>record. next (record @ [name @ '':enter'']) @ [name @ '':exit'']))"

text \<open>
  One step of the loop seen from outside: the middleware value \<open>m\<close> is called on the
  handler built so far; an earlier panic passes through, and calling \<^verbatim>\<open>nil\<close> panics.
\<close>

definition call_mw :: "'h middleware \<Rightarrow> error + 'h \<Rightarrow> error + 'h" where
  "call_mw m r =
     (case r of
        Inl e \<Rightarrow> Inl e
      | Inr h \<Rightarrow> (case m of None \<Rightarrow> Inl NilFuncCall | Some f \<Rightarrow> f h))"

text \<open>
  The five steps of \<^verbatim>\<open>joinPattern\<close> as the specification words them, to be compared
  with the definition taken from the source.
\<close>

definition strip_one_slash :: "string \<Rightarrow> string" where
  "strip_one_slash prefix =
     (if prefix \<noteq> [] \<and> last prefix = CHR ''/'' then butlast prefix else prefix)"

definition lead_slash :: "string \<Rightarrow> string" where
  "lead_slash path = (if path \<noteq> [] \<and> hd path = CHR ''/'' then path else CHR ''/'' # path)"

definition joinPattern_steps :: "string \<Rightarrow> string \<Rightarrow> string" where
  "joinPattern_steps prefix pattern =
     (let (method, path) = splitMethodPath pattern;
          joined = strip_one_slash prefix @ lead_slash path
      in if method = [] then joined else method @ [CHR '' ''] @ joined)"

definition recognized_methods :: "string set" where
  "recognized_methods =
     {''GET'', ''POST'', ''PUT'', ''DELETE'', ''PATCH'', ''HEAD'', ''OPTIONS'', ''CONNECT'', ''TRACE''}"

section \<open>The heap: backing arrays, ServeMux tables, Mux and Group objects\<close>

text \<open>
  \<^verbatim>\<open>Use\<close> appends to a slice in place when its capacity allows, and \<^verbatim>\<open>Group\<close> copies
  a slice; whether two scopes can see each other's appends depends on which backing
  array each slice points to. So slices are modelled as Go has them: a slice value is
  \<^verbatim>\<open>nil\<close> or a triple of backing array, length and capacity, and the backing arrays
  live in the heap. The elements of an array beyond a slice's length are still there.
\<close>

datatype slice = Nil_slice | Slice nat nat nat

fun len :: "slice \<Rightarrow> nat" where
  "len Nil_slice = 0"
| "len (Slice b n c) = n"

fun cap :: "slice \<Rightarrow> nat" where
  "cap Nil_slice = 0"
| "cap (Slice b n c) = c"

text \<open>\<^verbatim>\<open>type Mux struct { mux *http.ServeMux; middleware []func(http.Handler) http.Handler }\<close>\<close>

record Mux =
  Mux_mux :: nat
  Mux_middleware :: slice

text \<open>\<^verbatim>\<open>type Group struct { mux *Mux; prefix string; middleware []func(http.Handler) http.Handler }\<close>\<close>

record Group =
  Group_mux :: nat
  Group_prefix :: string
  Group_middleware :: slice

text \<open>
  Pointers are indices into the lists of allocated objects; an index beyond the list plays the
  \<^verbatim>\<open>nil\<close> pointer. An \<^verbatim>\<open>http.ServeMux\<close> is the list of the pairs registered on it, in
  order of registration.
\<close>

record 'h heap =
  arrays :: "'h middleware list list"
  servemuxes :: "(string \<times> 'h) list list"
  muxes :: "Mux list"
  groups :: "Group list"

definition empty_heap :: "'h heap" where
  "empty_heap = \<lparr>arrays = [], servemuxes = [], muxes = [], groups = []\<rparr>"

text \<open>A value of the interface \<^verbatim>\<open>Router\<close> holds a \<^verbatim>\<open>*Mux\<close> or a \<^verbatim>\<open>*Group\<close>.\<close>

datatype Router = MuxRef nat | GroupRef nat

text \<open>A call returns a value or panics, and leaves a heap behind in both cases.\<close>

type_synonym ('a, 'h) result = "(error + 'a) \<times> 'h heap"

subsection \<open>Go's slice primitives\<close>

text \<open>The elements a slice shows: the first \<open>len\<close> cells of its backing array.\<close>

definition elems :: "'h heap \<Rightarrow> slice \<Rightarrow> 'h middleware list" where
  "elems w s =
     (case s of
        Nil_slice \<Rightarrow> []
      | Slice b n c \<Rightarrow> if b < length (arrays w) then take n (arrays w ! b) else [])"

text \<open>\<^verbatim>\<open>make([]T, n)\<close>: a fresh array of \<open>n\<close> zero values, here \<^verbatim>\<open>nil\<close> functions.\<close>

definition make_slice :: "nat \<Rightarrow> 'h heap \<Rightarrow> slice \<times> 'h heap" where
  "make_slice n w =
     (Slice (length (arrays w)) n n, w\<lparr>arrays := arrays w @ [replicate n None]\<rparr>)"

text \<open>\<^verbatim>\<open>copy(dst, src)\<close>: overwrites the first \<open>min (len dst) (len src)\<close> cells of \<open>dst\<close>.\<close>

definition copy_slice :: "'h heap \<Rightarrow> slice \<Rightarrow> slice \<Rightarrow> 'h heap" where
  "copy_slice w dst src =
     (case dst of
        Nil_slice \<Rightarrow> w
      | Slice b n c \<Rightarrow>
          let k = min n (len src)
          in w\<lparr>arrays := (arrays w)[b := take k (elems w src) @ drop k (arrays w ! b)]\<rparr>)"

text \<open>
  \<^verbatim>\<open>append(s, xs...)\<close>: when the capacity suffices the new elements are written into the
  backing array of \<open>s\<close> behind its length, and the result shares that array; otherwise a
  larger array is allocated and filled. How much larger is the runtime's choice: the
  parameter \<open>growcap\<close> (old capacity, needed length), never less than what is needed.
\<close>

definition append_slice ::
  "(nat \<Rightarrow> nat \<Rightarrow> nat) \<Rightarrow> 'h heap \<Rightarrow> slice \<Rightarrow> 'h middleware list \<Rightarrow> slice \<times> 'h heap" where
  "append_slice growcap w s xs =
     (let need = len s + length xs in
      if need \<le> cap s then
        (case s of
           Nil_slice \<Rightarrow> (Nil_slice, w)
         | Slice b n c \<Rightarrow>
             (Slice b need c,
              w\<lparr>arrays := (arrays w)[b := take n (arrays w ! b) @ xs @ drop need (arrays w ! b)]\<rparr>))
      else
        let newcap = max need (growcap (cap s) need)
        in (Slice (length (arrays w)) need newcap,
            w\<lparr>arrays := arrays w @ [elems w s @ xs @ replicate (newcap - need) None]\<rparr>))"

subsection \<open>The registration sink\<close>

text \<open>
  \<^verbatim>\<open>http.ServeMux.Handle\<close> belongs to the standard library. It registers the pair or
  panics (invalid pattern, conflict with a registered pattern, nil handler); which of the
  two is the parameter \<open>accepts\<close>, a function of the table, the pattern and the handler.
\<close>

definition ServeMux_Handle ::
  "((string \<times> 'h) list \<Rightarrow> string \<Rightarrow> 'h \<Rightarrow> bool) \<Rightarrow> nat \<Rightarrow> string \<Rightarrow> 'h \<Rightarrow> 'h heap \<Rightarrow> (unit, 'h) result" where
  "ServeMux_Handle accepts sm pattern handler w =
     (if sm < length (servemuxes w) then
        (if accepts (servemuxes w ! sm) pattern handler then
           (Inr (), w\<lparr>servemuxes := (servemuxes w)[sm := servemuxes w ! sm @ [(pattern, handler)]]\<rparr>)
         else (Inl ServeMuxPanic, w))
      else (Inl NilPointer, w))"

subsection \<open>Mux (mux.go)\<close>

definition New :: "'h heap \<Rightarrow> nat \<times> 'h heap" where
  "New w =
     (length (muxes w),
      w\<lparr>servemuxes := servemuxes w @ [[]],
        muxes := muxes w @ [\<lparr>Mux_mux = length (servemuxes w), Mux_middleware = Nil_slice\<rparr>]\<rparr>)"

text \<open>The method \<^verbatim>\<open>(m *Mux) wrap\<close>.\<close>

definition Mux_wrap :: "'h heap \<Rightarrow> nat \<Rightarrow> 'h \<Rightarrow> error + 'h" where
  "Mux_wrap w m h =
     (if m < length (muxes w) then wrap h (elems w (Mux_middleware (muxes w ! m)))
      else Inl NilPointer)"

definition Mux_Handle ::
  "((string \<times> 'h) list \<Rightarrow> string \<Rightarrow> 'h \<Rightarrow> bool) \<Rightarrow> nat \<Rightarrow> string \<Rightarrow> 'h \<Rightarrow> 'h heap \<Rightarrow> (unit, 'h) result" where
  "Mux_Handle accepts m pattern handler w =
     (if m < length (muxes w) then
        (case Mux_wrap w m handler of
           Inl e \<Rightarrow> (Inl e, w)
         | Inr wrapped \<Rightarrow> ServeMux_Handle accepts (Mux_mux (muxes w ! m)) pattern wrapped w)
      else (Inl NilPointer, w))"

definition Mux_HandleFunc ::
  "((string \<times> 'h) list \<Rightarrow> string \<Rightarrow> 'h \<Rightarrow> bool) \<Rightarrow> nat \<Rightarrow> string \<Rightarrow> 'h \<Rightarrow> 'h heap \<Rightarrow> (unit, 'h) result" where
  "Mux_HandleFunc accepts m pattern handler w = Mux_Handle accepts m pattern handler w"

text \<open>The validation loop that opens both \<^verbatim>\<open>Use\<close> methods.\<close>

fun Use_check :: "'h middleware list \<Rightarrow> error + unit" where
  "Use_check [] = Inr ()"
| "Use_check (fn # rest) = (case fn of None \<Rightarrow> Inl NilMiddleware | Some f \<Rightarrow> Use_check rest)"

definition Mux_Use ::
  "(nat \<Rightarrow> nat \<Rightarrow> nat) \<Rightarrow> nat \<Rightarrow> 'h middleware list \<Rightarrow> 'h heap \<Rightarrow> (unit, 'h) result" where
  "Mux_Use growcap m mw w =
     (case Use_check mw of
        Inl e \<Rightarrow> (Inl e, w)
      | Inr u \<Rightarrow>
          if m < length (muxes w) then
            (case append_slice growcap w (Mux_middleware (muxes w ! m)) mw of
               (s, w1) \<Rightarrow>
                 (Inr (), w1\<lparr>muxes := (muxes w1)[m := (muxes w1 ! m)\<lparr>Mux_middleware := s\<rparr>]\<rparr>))
          else (Inl NilPointer, w))"

definition Mux_Group :: "nat \<Rightarrow> string \<Rightarrow> 'h heap \<Rightarrow> (Router, 'h) result" where
  "Mux_Group m prefix w =
     (if prefix \<noteq> [] \<and> \<not> HasPrefix prefix ''/'' then (Inl InvalidPrefix, w)
      else if m < length (muxes w) then
        (case make_slice (len (Mux_middleware (muxes w ! m))) w of
           (mw, w1) \<Rightarrow>
             let w2 = copy_slice w1 mw (Mux_middleware (muxes w1 ! m))
             in (Inr (GroupRef (length (groups w2))),
                 w2\<lparr>groups := groups w2 @
                      [\<lparr>Group_mux = m, Group_prefix = prefix, Group_middleware = mw\<rparr>]\<rparr>))
      else (Inl NilPointer, w))"

subsection \<open>Group (the group file)\<close>

definition Group_Handle ::
  "((string \<times> 'h) list \<Rightarrow> string \<Rightarrow> 'h \<Rightarrow> bool) \<Rightarrow> nat \<Rightarrow> string \<Rightarrow> 'h \<Rightarrow> 'h heap \<Rightarrow> (unit, 'h) result" where
  "Group_Handle accepts g pattern handler w =
     (if g < length (groups w) then
        let fullPattern = joinPattern (Group_prefix (groups w ! g)) pattern;
            m = Group_mux (groups w ! g)
        in if m < length (muxes w) then
             (case wrap handler (elems w (Group_middleware (groups w ! g))) of
                Inl e \<Rightarrow> (Inl e, w)
              | Inr wrapped \<Rightarrow> ServeMux_Handle accepts (Mux_mux (muxes w ! m)) fullPattern wrapped w)
           else (Inl NilPointer, w)
      else (Inl NilPointer, w))"

definition Group_HandleFunc ::
  "((string \<times> 'h) list \<Rightarrow> string \<Rightarrow> 'h \<Rightarrow> bool) \<Rightarrow> nat \<Rightarrow> string \<Rightarrow> 'h \<Rightarrow> 'h heap \<Rightarrow> (unit, 'h) result" where
  "Group_HandleFunc accepts g pattern handler w = Group_Handle accepts g pattern handler w"

definition Group_Use ::
  "(nat \<Rightarrow> nat \<Rightarrow> nat) \<Rightarrow> nat \<Rightarrow> 'h middleware list \<Rightarrow> 'h heap \<Rightarrow> (unit, 'h) result" where
  "Group_Use growcap g mw w =
     (case Use_check mw of
        Inl e \<Rightarrow> (Inl e, w)
      | Inr u \<Rightarrow>
          if g < length (groups w) then
            (case append_slice growcap w (Group_middleware (groups w ! g)) mw of
               (s, w1) \<Rightarrow>
                 (Inr (), w1\<lparr>groups := (groups w1)[g := (groups w1 ! g)\<lparr>Group_middleware := s\<rparr>]\<rparr>))
          else (Inl NilPointer, w))"

definition Group_Group :: "nat \<Rightarrow> string \<Rightarrow> 'h heap \<Rightarrow> (Router, 'h) result" where
  "Group_Group g prefix w =
     (if prefix \<noteq> [] \<and> \<not> HasPrefix prefix ''/'' then (Inl InvalidPrefix, w)
      else if g < length (groups w) then
        (case make_slice (len (Group_middleware (groups w ! g))) w of
           (mw, w1) \<Rightarrow>
             let w2 = copy_slice w1 mw (Group_middleware (groups w1 ! g))
             in (Inr (GroupRef (length (groups w2))),
                 w2\<lparr>groups := groups w2 @
                      [\<lparr>Group_mux = Group_mux (groups w2 ! g),
                        Group_prefix = joinPattern (Group_prefix (groups w2 ! g)) prefix,
                        Group_middleware = mw\<rparr>]\<rparr>))
      else (Inl NilPointer, w))"

subsection \<open>Calls through the Router interface (router.go), and With\<close>

definition Router_Handle ::
  "((string \<times> 'h) list \<Rightarrow> string \<Rightarrow> 'h \<Rightarrow> bool) \<Rightarrow> Router \<Rightarrow> string \<Rightarrow> 'h \<Rightarrow> 'h heap \<Rightarrow> (unit, 'h) result" where
  "Router_Handle accepts r pattern handler w =
     (case r of
        MuxRef m \<Rightarrow> Mux_Handle accepts m pattern handler w
      | GroupRef g \<Rightarrow> Group_Handle accepts g pattern handler w)"

definition Router_HandleFunc ::
  "((string \<times> 'h) list \<Rightarrow> string \<Rightarrow> 'h \<Rightarrow> bool) \<Rightarrow> Router \<Rightarrow> string \<Rightarrow> 'h \<Rightarrow> 'h heap \<Rightarrow> (unit, 'h) result" where
  "Router_HandleFunc accepts r pattern handler w =
     (case r of
        MuxRef m \<Rightarrow> Mux_HandleFunc accepts m pattern handler w
      | GroupRef g \<Rightarrow> Group_HandleFunc accepts g pattern handler w)"

definition Router_Use ::
  "(nat \<Rightarrow> nat \<Rightarrow> nat) \<Rightarrow> Router \<Rightarrow> 'h middleware list \<Rightarrow> 'h heap \<Rightarrow> (unit, 'h) result" where
  "Router_Use growcap r mw w =
     (case r of
        MuxRef m \<Rightarrow> Mux_Use growcap m mw w
      | GroupRef g \<Rightarrow> Group_Use growcap g mw w)"

definition Router_Group :: "Router \<Rightarrow> string \<Rightarrow> 'h heap \<Rightarrow> (Router, 'h) result" where
  "Router_Group r prefix w =
     (case r of
        MuxRef m \<Rightarrow> Mux_Group m prefix w
      | GroupRef g \<Rightarrow> Group_Group g prefix w)"

text \<open>\<^verbatim>\<open>g := m.Group(""); g.Use(mw...); return g\<close>, a panic of either call ending it.\<close>

definition Mux_With ::
  "(nat \<Rightarrow> nat \<Rightarrow> nat) \<Rightarrow> nat \<Rightarrow> 'h middleware list \<Rightarrow> 'h heap \<Rightarrow> (Router, 'h) result" where
  "Mux_With growcap m mw w =
     (case Mux_Group m [] w of
        (Inl e, w1) \<Rightarrow> (Inl e, w1)
      | (Inr g, w1) \<Rightarrow>
          (case Router_Use growcap g mw w1 of
             (Inl e, w2) \<Rightarrow> (Inl e, w2)
           | (Inr u, w2) \<Rightarrow> (Inr g, w2)))"

definition Group_With ::
  "(nat \<Rightarrow> nat \<Rightarrow> nat) \<Rightarrow> nat \<Rightarrow> 'h middleware list \<Rightarrow> 'h heap \<Rightarrow> (Router, 'h) result" where
  "Group_With growcap g mw w =
     (case Group_Group g [] w of
        (Inl e, w1) \<Rightarrow> (Inl e, w1)
      | (Inr newG, w1) \<Rightarrow>
          (case Router_Use growcap newG mw w1 of
             (Inl e, w2) \<Rightarrow> (Inl e, w2)
           | (Inr u, w2) \<Rightarrow> (Inr newG, w2)))"

definition Router_With ::
  "(nat \<Rightarrow> nat \<Rightarrow> nat) \<Rightarrow> Router \<Rightarrow> 'h middleware list \<Rightarrow> 'h heap \<Rightarrow> (Router, 'h) result" where
  "Router_With growcap r mw w =
     (case r of
        MuxRef m \<Rightarrow> Mux_With growcap m mw w
      | GroupRef g \<Rightarrow> Group_With growcap g mw w)"

section \<open>What a scope is, read off the heap\<close>

definition valid_ref :: "'h heap \<Rightarrow> Router \<Rightarrow> bool" where
  "valid_ref w r =
     (case r of MuxRef m \<Rightarrow> m < length (muxes w) | GroupRef g \<Rightarrow> g < length (groups w))"

definition scope_slice :: "'h heap \<Rightarrow> Router \<Rightarrow> slice" where
  "scope_slice w r =
     (case r of
        MuxRef m \<Rightarrow> Mux_middleware (muxes w ! m)
      | GroupRef g \<Rightarrow> Group_middleware (groups w ! g))"

text \<open>The middleware list of a scope, as a list of values.\<close>

definition scope_mw :: "'h heap \<Rightarrow> Router \<Rightarrow> 'h middleware list" where
  "scope_mw w r = elems w (scope_slice w r)"

text \<open>The prefix of a scope; a Mux has none.\<close>

definition scope_prefix :: "'h heap \<Rightarrow> Router \<Rightarrow> string option" where
  "scope_prefix w r =
     (case r of MuxRef m \<Rightarrow> None | GroupRef g \<Rightarrow> Some (Group_prefix (groups w ! g)))"

text \<open>The Mux a scope registers through, and that Mux's ServeMux.\<close>

definition root_of :: "'h heap \<Rightarrow> Router \<Rightarrow> nat" where
  "root_of w r = (case r of MuxRef m \<Rightarrow> m | GroupRef g \<Rightarrow> Group_mux (groups w ! g))"

definition sink_of :: "'h heap \<Rightarrow> Router \<Rightarrow> nat" where
  "sink_of w r = Mux_mux (muxes w ! root_of w r)"

definition scope_view ::
  "'h heap \<Rightarrow> Router \<Rightarrow> nat \<times> nat \<times> string option \<times> 'h middleware list" where
  "scope_view w r = (root_of w r, sink_of w r, scope_prefix w r, scope_mw w r)"

text \<open>The pattern a scope hands to the ServeMux for a pattern given to \<^verbatim>\<open>Handle\<close>.\<close>

definition full_pattern :: "'h heap \<Rightarrow> Router \<Rightarrow> string \<Rightarrow> string" where
  "full_pattern w r pattern =
     (case scope_prefix w r of None \<Rightarrow> pattern | Some prefix \<Rightarrow> joinPattern prefix pattern)"

text \<open>The prefix a scope created by \<^verbatim>\<open>Group(prefix)\<close> on \<open>r\<close> receives.\<close>

definition child_prefix :: "'h heap \<Rightarrow> Router \<Rightarrow> string \<Rightarrow> string" where
  "child_prefix w r prefix =
     (case scope_prefix w r of None \<Rightarrow> prefix | Some p \<Rightarrow> joinPattern p prefix)"

text \<open>The position of a scope's slice in the list of all scopes' slices.\<close>

definition slot :: "'h heap \<Rightarrow> Router \<Rightarrow> nat" where
  "slot w r = (case r of MuxRef m \<Rightarrow> m | GroupRef g \<Rightarrow> length (muxes w) + g)"

subsection \<open>Well-formed heaps\<close>

text \<open>
  A slice points into an allocated array whose size is the slice's capacity; no two
  scopes hold slices on the same array; every pointer field points to an allocated object.
\<close>

definition slice_ok :: "'h heap \<Rightarrow> slice \<Rightarrow> bool" where
  "slice_ok w s =
     (case s of
        Nil_slice \<Rightarrow> True
      | Slice b n c \<Rightarrow> b < length (arrays w) \<and> length (arrays w ! b) = c \<and> n \<le> c)"

fun bases :: "slice \<Rightarrow> nat list" where
  "bases Nil_slice = []"
| "bases (Slice b n c) = [b]"

definition scope_slices :: "'h heap \<Rightarrow> slice list" where
  "scope_slices w = map Mux_middleware (muxes w) @ map Group_middleware (groups w)"

definition wf_heap :: "'h heap \<Rightarrow> bool" where
  "wf_heap w =
     (list_all (slice_ok w) (scope_slices w)
      \<and> distinct (concat (map bases (scope_slices w)))
      \<and> list_all (\<lambda>M. Mux_mux M < length (servemuxes w)) (muxes w)
      \<and> list_all (\<lambda>G. Group_mux G < length (muxes w)) (groups w))"

subsection \<open>Sequences of derivations\<close>

datatype 'h step = Group_step string | With_step "'h middleware list"

definition do_step ::
  "(nat \<Rightarrow> nat \<Rightarrow> nat) \<Rightarrow> 'h step \<Rightarrow> Router \<Rightarrow> 'h heap \<Rightarrow> (Router, 'h) result" where
  "do_step growcap st r w =
     (case st of
        Group_step prefix \<Rightarrow> Router_Group r prefix w
      | With_step mw \<Rightarrow> Router_With growcap r mw w)"

fun derive ::
  "(nat \<Rightarrow> nat \<Rightarrow> nat) \<Rightarrow> 'h step list \<Rightarrow> Router \<Rightarrow> 'h heap \<Rightarrow> (Router, 'h) result" where
  "derive growcap [] r w = (Inr r, w)"
| "derive growcap (st # sts) r w =
     (case do_step growcap st r w of
        (Inl e, w1) \<Rightarrow> (Inl e, w1)
      | (Inr r1, w1) \<Rightarrow> derive growcap sts r1 w1)"

text \<open>A ServeMux that accepts every registration, and a growth policy that doubles.\<close>

definition accepts_all :: "(string \<times> 'h) list \<Rightarrow> string \<Rightarrow> 'h \<Rightarrow> bool" where
  "accepts_all table pattern handler = True"

definition doubling :: "nat \<Rightarrow> nat \<Rightarrow> nat" where
  "doubling oldcap need = 2 * oldcap"

subsection \<open>A concrete heap for examples\<close>

text \<open>
  Handlers as text: the middleware \<open>tag name\<close> turns the handler \<open>h\<close> into \<open>name(h)\<close>.
  The heap \<open>demo_heap\<close> is the one reached from the empty heap by \<^verbatim>\<open>New()\<close> and
  \<^verbatim>\<open>Use(A)\<close>, \<^verbatim>\<open>Use(B)\<close>, \<^verbatim>\<open>Use(C)\<close> on the new Mux under the doubling policy: the
  Mux's slice has length 3 and capacity 4, and the two outgrown arrays are garbage.
\<close>

definition tag :: "string \<Rightarrow> string middleware" where
  "tag name = Some (\<lambda>h. Inr (name @ ''('' @ h @ '')''))"

definition demo_heap :: "string heap" where
  "demo_heap =
     \<lparr>arrays = [[tag ''A''], [tag ''A'', tag ''B''], [tag ''A'', tag ''B'', tag ''C'', None]],
      servemuxes = [[]],
      muxes = [\<lparr>Mux_mux = 0, Mux_middleware = Slice 2 3 4\<rparr>],
      groups = []\<rparr>"

text \<open>The heaps of the "before / Use(M) / after" scenario of the specification.\<close>

definition demo_before :: "string heap" where
  "demo_before =
     snd (Router_Handle accepts_all (MuxRef 0) ''/before'' ''before-handler'' demo_heap)"

definition demo_used :: "string heap" where
  "demo_used = snd (Router_Use doubling (MuxRef 0) [tag ''M''] demo_before)"

definition demo_after :: "string heap" where
  "demo_after =
     snd (Router_Handle accepts_all (MuxRef 0) ''/after'' ''after-handler'' demo_used)"

text \<open>
  The heap after \<^verbatim>\<open>G := R.Group("/g")\<close> on \<open>demo_heap\<close>, then after \<^verbatim>\<open>R.Use(D)\<close>
  (which appends in place, the capacity being 4), and after \<^verbatim>\<open>G.Use(E)\<close> instead.
\<close>

definition demo_group :: "string heap" where
  "demo_group = snd (Router_Group (MuxRef 0) ''/g'' demo_heap)"

definition demo_group_rootD :: "string heap" where
  "demo_group_rootD = snd (Router_Use doubling (MuxRef 0) [tag ''D''] demo_group)"

definition demo_group_groupE :: "string heap" where
  "demo_group_groupE = snd (Router_Use doubling (GroupRef 0) [tag ''E''] demo_group)"

text \<open>
  The scope \<^verbatim>\<open>R.Group("/api").With(W).Group("/v1")\<close> derived from the Mux of
  \<open>demo_heap\<close>, and the heap that derivation leaves.
\<close>

definition demo_steps :: "string step list" where
  "demo_steps = [Group_step ''/api'', With_step [tag ''W''], Group_step ''/v1'']"

definition demo_derived :: "string heap" where
  "demo_derived = snd (derive doubling demo_steps (MuxRef 0) demo_heap)"

definition demo_registered :: "string heap" where
  "demo_registered =
     snd (Router_Handle accepts_all (GroupRef 2) ''GET /users'' ''users-handler'' demo_derived)"

section \<open>Properties of the pattern helpers\<close>

lemmas Method_defs =
  MethodGet_def MethodPost_def MethodPut_def MethodDelete_def MethodPatch_def
  MethodHead_def MethodOptions_def MethodConnect_def MethodTrace_def

lemma TrimSuffix_slash: "TrimSuffix p ''/'' = strip_one_slash p"
proof (cases p rule: rev_cases)
  case Nil
  then show ?thesis by (simp add: TrimSuffix_def HasSuffix_def strip_one_slash_def)
next
  case (snoc ys y)
  then show ?thesis by (simp add: TrimSuffix_def HasSuffix_def strip_one_slash_def)
qed

lemma HasPrefix_slash: "HasPrefix p ''/'' \<longleftrightarrow> p \<noteq> [] \<and> hd p = CHR ''/''"
  by (cases p) (auto simp add: HasPrefix_def)

lemma joinPattern_eq_steps: "joinPattern prefix pattern = joinPattern_steps prefix pattern"
  by (simp add: joinPattern_def joinPattern_steps_def TrimSuffix_slash HasPrefix_slash
        lead_slash_def Let_def split: prod.splits)

lemma joinPattern_examples: "joinPattern ''/'' ''/test'' = ''/test''"
     "joinPattern [] ''/users'' = ''/users''"
     "joinPattern ''/api/'' ''/users'' = ''/api/users''"
     "joinPattern ''/api'' ''GET /users'' = ''GET /api/users''"
     "joinPattern ''/api'' ''users'' = ''/api/users''"
  by (simp_all add: joinPattern_def splitMethodPath_def Cut_def HasPrefix_def TrimSuffix_def
        HasSuffix_def Method_defs)

text \<open>
  Claim C5. \<^verbatim>\<open>joinPattern(prefix, pattern)\<close> splits the pattern with
  \<^verbatim>\<open>splitMethodPath\<close>, strips at most one trailing slash from the prefix, puts a slash
  before the path when it has none, concatenates, and puts the method and a space back in
  front when a method was split off. It is a total function with no error result, and the
  five examples of the specification evaluate to the stated strings.
\<close>

theorem joinPattern_steps_and_examples:
  "joinPattern prefix pattern = joinPattern_steps prefix pattern
   \<and> joinPattern ''/'' ''/test'' = ''/test''
   \<and> joinPattern [] ''/users'' = ''/users''
   \<and> joinPattern ''/api/'' ''/users'' = ''/api/users''
   \<and> joinPattern ''/api'' ''GET /users'' = ''GET /api/users''
   \<and> joinPattern ''/api'' ''users'' = ''/api/users''"
  using joinPattern_eq_steps [of prefix pattern] joinPattern_examples by simp

lemma Index_none: "CHR '' '' \<notin> set s \<Longrightarrow> Index s '' '' = None"
  by (induction s) (auto simp add: HasPrefix_def)

lemma Index_first: "CHR '' '' \<notin> set tok \<Longrightarrow> Index (tok @ CHR '' '' # rest) '' '' = Some (length tok)"
  by (induction tok) (auto simp add: HasPrefix_def)

lemma Cut_none: "CHR '' '' \<notin> set s \<Longrightarrow> Cut s '' '' = (s, [], False)"
  by (simp add: Cut_def Index_none)

lemma Cut_first: "CHR '' '' \<notin> set tok \<Longrightarrow> Cut (tok @ CHR '' '' # rest) '' '' = (tok, rest, True)"
  by (simp add: Cut_def Index_first)

text \<open>
  Claim C6. \<^verbatim>\<open>splitMethodPath\<close> splits at the first space. Without a space the method
  is empty and the path is the whole string. When the token before the first space is one
  of GET, POST, PUT, DELETE, PATCH, HEAD, OPTIONS, CONNECT, TRACE (compared exactly), the
  result is that token and the text after the first space. For any other token the method
  is empty and the path is the whole input, token and space included.
\<close>

theorem splitMethodPath_cases:
  "(CHR '' '' \<notin> set pattern \<longrightarrow> splitMethodPath pattern = ([], pattern)) \<and>
   (CHR '' '' \<notin> set tok \<and> tok \<in> recognized_methods \<longrightarrow>
      splitMethodPath (tok @ CHR '' '' # rest) = (tok, rest)) \<and>
   (CHR '' '' \<notin> set tok \<and> tok \<notin> recognized_methods \<longrightarrow>
      splitMethodPath (tok @ CHR '' '' # rest) = ([], tok @ CHR '' '' # rest))"
  by (auto simp add: splitMethodPath_def Cut_none Cut_first recognized_methods_def Method_defs)

theorem splitMethodPath_cases_witness:
  "CHR '' '' \<notin> set ''/x'' \<and> splitMethodPath ''/x'' = ([], ''/x'')
   \<and> CHR '' '' \<notin> set ''GET'' \<and> ''GET'' \<in> recognized_methods
   \<and> splitMethodPath ''GET /x'' = (''GET'', ''/x'')
   \<and> CHR '' '' \<notin> set ''UNKNOWN'' \<and> ''UNKNOWN'' \<notin> recognized_methods
   \<and> splitMethodPath ''UNKNOWN /x'' = ([], ''UNKNOWN /x'')
   \<and> CHR '' '' \<notin> set ''get'' \<and> ''get'' \<notin> recognized_methods
   \<and> splitMethodPath ''get /x'' = ([], ''get /x'')"
  using splitMethodPath_cases [where pattern = "''/x''" and tok = "''GET''" and rest = "''/x''"]
    splitMethodPath_cases [where pattern = "''/x''" and tok = "''UNKNOWN''" and rest = "''/x''"]
    splitMethodPath_cases [where pattern = "''/x''" and tok = "''get''" and rest = "''/x''"]
  by (simp add: recognized_methods_def)

section \<open>Properties of the wrapping loop\<close>

lemma call_mw_Inl: "foldr call_mw ms (Inl e) = Inl e"
  by (induction ms) (simp_all add: call_mw_def)

lemma wrap_loop_take:
  "k \<le> length mw \<Longrightarrow> wrap_loop mw (int k - 1) h = foldr call_mw (take k mw) (Inr h)"
proof (induction k arbitrary: h)
  case 0
  then show ?case by simp
next
  case (Suc k)
  then have lt: "k < length mw" by simp
  have tk: "foldr call_mw (take (Suc k) mw) (Inr h)
              = foldr call_mw (take k mw) (call_mw (mw ! k) (Inr h))"
    using lt by (simp add: take_Suc_conv_app_nth)
  show ?case
  proof (cases "mw ! k")
    case None
    then have "call_mw (mw ! k) (Inr h) = Inl NilFuncCall" by (simp add: call_mw_def)
    then show ?thesis using lt None tk by (simp add: call_mw_Inl)
  next
    case (Some f)
    show ?thesis
    proof (cases "f h")
      case (Inl e)
      then have "call_mw (mw ! k) (Inr h) = Inl e" using Some by (simp add: call_mw_def)
      then show ?thesis using lt Some Inl tk by (simp add: call_mw_Inl)
    next
      case (Inr h')
      then have c: "call_mw (mw ! k) (Inr h) = Inr h'" using Some by (simp add: call_mw_def)
      have "wrap_loop mw (int (Suc k) - 1) h = wrap_loop mw (int k - 1) h'"
        using lt Some Inr by simp
      also have "\<dots> = foldr call_mw (take k mw) (Inr h')"
        using Suc.IH lt by simp
      finally show ?thesis using tk c by simp
    qed
  qed
qed

lemma wrap_foldr: "wrap h mw = foldr call_mw mw (Inr h)"
  unfolding wrap_def using wrap_loop_take [of "length mw" mw h] by simp

lemma wrap_total: "wrap h (map total_mw fs) = Inr (foldr (\<lambda>f x. f x) fs h)"
  by (induction fs) (simp_all add: wrap_foldr call_mw_def total_mw_def)

lemma wrap_around:
  "wrap H (map (\<lambda>(pre, post). around pre post) pps)
     = Inr (\<lambda>s. fold (\<lambda>post. post) (rev (map snd pps)) (H (fold (\<lambda>pre. pre) (map fst pps) s)))"
proof (induction pps arbitrary: H)
  case Nil
  then show ?case by (simp add: wrap_foldr)
next
  case (Cons a pps)
  obtain pre post where a: "a = (pre, post)" by (cases a)
  show ?case using Cons[of H]
    by (simp add: wrap_foldr a call_mw_def around_def total_mw_def)
qed

lemma wrap_recording_ABC: "(case wrap (\<lambda>record. record @ [''handler''])
            [recordingMiddleware ''A'', recordingMiddleware ''B'', recordingMiddleware ''C''] of
          Inl e \<Rightarrow> [] | Inr h \<Rightarrow> h [])
       = [''A:enter'', ''B:enter'', ''C:enter'', ''handler'', ''C:exit'', ''B:exit'', ''A:exit'']"
  by (simp add: wrap_foldr call_mw_def recordingMiddleware_def)

text \<open>
  Claim C1. For every handler and every list of middleware, \<^verbatim>\<open>wrap\<close> applies the
  list from its last element to its first, so that the first element is the outermost
  wrapper: wrapping with \<open>m # ms\<close> is \<open>m\<close> called on the result of wrapping with \<open>ms\<close>.
  For middleware that run a pre-step, the next handler and a post-step, the wrapped handler
  runs the pre-steps in list order, then the handler, then the post-steps in reverse
  order; with recording middleware A, B, C the record is A:enter, B:enter, C:enter,
  handler, C:exit, B:exit, A:exit. For the empty list the handler comes back unchanged.
\<close>

theorem wrap_onion_order:
  "wrap h [] = Inr h
   \<and> wrap h (m # ms) = call_mw m (wrap h ms)
   \<and> wrap h mw = foldr call_mw mw (Inr h)
   \<and> wrap h (map total_mw fs) = Inr (foldr (\<lambda>f x. f x) fs h)
   \<and> wrap H (map (\<lambda>(pre, post). around pre post) pps)
       = Inr (\<lambda>s. fold (\<lambda>post. post) (rev (map snd pps)) (H (fold (\<lambda>pre. pre) (map fst pps) s)))
   \<and> (case wrap (\<lambda>record. record @ [''handler''])
              [recordingMiddleware ''A'', recordingMiddleware ''B'', recordingMiddleware ''C''] of
         Inl e \<Rightarrow> [] | Inr h' \<Rightarrow> h' [])
       = [''A:enter'', ''B:enter'', ''C:enter'', ''handler'', ''C:exit'', ''B:exit'', ''A:exit'']"
  using wrap_total [of h fs] wrap_around [of H pps] wrap_recording_ABC
  by (simp add: wrap_foldr)

lemma wrap_Chain_inside: "wrap h (xs @ Chain ms # ys) = wrap h (xs @ ms @ ys)"
proof -
  have "call_mw (Chain ms) r = foldr call_mw ms r" for r :: "error + 'a"
    by (cases r) (simp_all add: call_mw_def Chain_def wrap_foldr call_mw_Inl)
  then show ?thesis by (simp add: wrap_foldr)
qed

text \<open>
  Claim C3. The middleware that \<^verbatim>\<open>Chain\<close> returns, applied to a handler, gives exactly
  what \<^verbatim>\<open>wrap\<close> gives for that handler and the same list, for every list and handler;
  and as one element inside another list it wraps like its members spliced in at that place.
\<close>

theorem Chain_equals_wrap:
  "(\<exists>c. Chain mw = Some c \<and> (\<forall>h. c h = wrap h mw))
   \<and> call_mw (Chain mw) (Inr h) = wrap h mw
   \<and> wrap h (xs @ Chain mw # ys) = wrap h (xs @ mw @ ys)"
  using wrap_Chain_inside [of h xs mw ys]
  by (simp add: Chain_def call_mw_def)

section \<open>Slices: what append, make and copy do\<close>

lemma concat_disjoint:
  "distinct (concat xss) \<Longrightarrow> i < j \<Longrightarrow> j < length xss \<Longrightarrow> set (xss ! i) \<inter> set (xss ! j) = {}"
proof (induction xss arbitrary: i j)
  case Nil
  then show ?case by simp
next
  case (Cons a xss)
  obtain j' where j: "j = Suc j'" using Cons.prems(2) by (cases j) auto
  show ?case
  proof (cases i)
    case 0
    have "xss ! j' \<in> set xss" using Cons.prems(3) j by simp
    then show ?thesis using Cons.prems(1) 0 j by auto
  next
    case (Suc i')
    then show ?thesis using Cons.IH[of i' j'] Cons.prems j by simp
  qed
qed

lemma concat_disjoint_neq:
  "distinct (concat xss) \<Longrightarrow> i \<noteq> j \<Longrightarrow> i < length xss \<Longrightarrow> j < length xss
     \<Longrightarrow> set (xss ! i) \<inter> set (xss ! j) = {}"
  using concat_disjoint[of xss i j] concat_disjoint[of xss j i]
  by (cases "i < j") auto

lemma distinct_concat_update:
  "distinct (concat xss) \<Longrightarrow> k < length xss \<Longrightarrow> distinct ys
     \<Longrightarrow> set ys \<subseteq> set (xss ! k) \<union> F \<Longrightarrow> F \<inter> \<Union> (set ` set xss) = {}
     \<Longrightarrow> distinct (concat (xss[k := ys]))"
proof (induction xss arbitrary: k)
  case Nil
  then show ?case by simp
next
  case (Cons a xss)
  show ?case
  proof (cases k)
    case 0
    then show ?thesis using Cons.prems by auto
  next
    case (Suc k')
    have d: "distinct (concat (xss[k' := ys]))"
      using Cons.IH[of k'] Cons.prems Suc by auto
    have "set (concat (xss[k' := ys])) \<subseteq> set (concat xss) \<union> F"
    proof
      fix x assume "x \<in> set (concat (xss[k' := ys]))"
      then obtain zs where zs: "zs \<in> set (xss[k' := ys])" "x \<in> set zs" by auto
      then have "zs = ys \<or> zs \<in> set xss"
        using set_update_subset_insert[of xss k' ys] by auto
      then show "x \<in> set (concat xss) \<union> F"
        using zs Cons.prems(2,4) Suc by auto
    qed
    moreover have "set a \<inter> set (concat xss) = {}" "distinct a"
      using Cons.prems(1) by auto
    moreover have "set a \<inter> F = {}" using Cons.prems(5) by auto
    ultimately have disj: "set a \<inter> set (concat (xss[k' := ys])) = {}" by blast
    have da: "distinct a" using Cons.prems(1) by simp
    have eq: "concat ((a # xss)[k := ys]) = a @ concat (xss[k' := ys])"
      using Suc by simp
    show ?thesis unfolding eq distinct_append using da d disj by blast
  qed
qed

lemma elems_frame:
  assumes "slice_ok w t" "length (arrays w) \<le> length (arrays w')"
    and "\<forall>b\<in>set (bases t). arrays w' ! b = arrays w ! b"
  shows "slice_ok w' t \<and> elems w' t = elems w t"
  using assms by (cases t) (auto simp add: slice_ok_def elems_def)

lemma length_elems: "slice_ok w s \<Longrightarrow> length (elems w s) = len s"
  by (cases s) (auto simp add: slice_ok_def elems_def)

lemma append_slice_effect:
  assumes ok: "slice_ok w s" and ap: "append_slice gc w s xs = (s', w')"
  shows "servemuxes w' = servemuxes w" "muxes w' = muxes w" "groups w' = groups w"
    "length (arrays w) \<le> length (arrays w')"
    "\<forall>b<length (arrays w). b \<notin> set (bases s) \<longrightarrow> arrays w' ! b = arrays w ! b"
    "slice_ok w' s'"
    "elems w' s' = elems w s @ xs"
    "set (bases s') \<subseteq> set (bases s) \<union> {length (arrays w)}"
    "distinct (bases s')"
proof -
  show "servemuxes w' = servemuxes w" "muxes w' = muxes w" "groups w' = groups w"
    using ap by (auto simp add: append_slice_def Let_def split: if_splits slice.splits)
  show "length (arrays w) \<le> length (arrays w')"
    using ap by (auto simp add: append_slice_def Let_def split: if_splits slice.splits)
  show "\<forall>b<length (arrays w). b \<notin> set (bases s) \<longrightarrow> arrays w' ! b = arrays w ! b"
    using ap by (auto simp add: append_slice_def Let_def nth_append split: if_splits slice.splits)
  show "slice_ok w' s'"
    using ap ok by (auto simp add: append_slice_def Let_def slice_ok_def length_elems
        split: if_splits slice.splits)
  show "elems w' s' = elems w s @ xs"
    using ap ok by (auto simp add: append_slice_def Let_def slice_ok_def elems_def
        split: if_splits slice.splits)
  show "set (bases s') \<subseteq> set (bases s) \<union> {length (arrays w)}"
    using ap by (auto simp add: append_slice_def Let_def split: if_splits slice.splits)
  show "distinct (bases s')" by (cases s') auto
qed

lemma make_copy_effect:
  assumes ok: "slice_ok w src" and mk: "make_slice (len src) w = (mw, w1)"
  shows "mw = Slice (length (arrays w)) (len src) (len src)"
    "copy_slice w1 mw src = w\<lparr>arrays := arrays w @ [elems w src]\<rparr>"
proof -
  show mw: "mw = Slice (length (arrays w)) (len src) (len src)"
    using mk by (auto simp add: make_slice_def)
  have w1: "w1 = w\<lparr>arrays := arrays w @ [replicate (len src) None]\<rparr>"
    using mk by (auto simp add: make_slice_def)
  have e: "elems w1 src = elems w src"
    using ok w1 by (cases src) (auto simp add: elems_def slice_ok_def nth_append)
  show "copy_slice w1 mw src = w\<lparr>arrays := arrays w @ [elems w src]\<rparr>"
    using length_elems[OF ok] by (simp add: copy_slice_def mw e) (simp add: w1)
qed

section \<open>Well-formed heaps and the operations that keep them so\<close>

lemma wf_slices_ok: "wf_heap w \<Longrightarrow> k < length (scope_slices w) \<Longrightarrow> slice_ok w (scope_slices w ! k)"
  by (simp add: wf_heap_def list_all_length)

lemma bases_lt: "slice_ok w s \<Longrightarrow> b \<in> set (bases s) \<Longrightarrow> b < length (arrays w)"
  by (cases s) (auto simp add: slice_ok_def)

lemma wf_bases_lt:
  "wf_heap w \<Longrightarrow> b \<in> \<Union> (set ` set (map bases (scope_slices w))) \<Longrightarrow> b < length (arrays w)"
  by (auto simp add: wf_heap_def list_all_iff intro: bases_lt)

lemma wf_sep:
  "wf_heap w \<Longrightarrow> i \<noteq> k \<Longrightarrow> i < length (scope_slices w) \<Longrightarrow> k < length (scope_slices w)
     \<Longrightarrow> set (bases (scope_slices w ! i)) \<inter> set (bases (scope_slices w ! k)) = {}"
  using concat_disjoint_neq[of "map bases (scope_slices w)" i k]
  by (simp add: wf_heap_def)

lemma wf_update_slice:
  assumes wf_heap: "wf_heap w" and k: "k < length (scope_slices w)"
    and ap: "append_slice gc w (scope_slices w ! k) xs = (s', w1)"
    and arr: "arrays w' = arrays w1"
    and sl: "scope_slices w' = (scope_slices w)[k := s']"
    and sm: "length (servemuxes w') = length (servemuxes w)"
    and mm: "map Mux_mux (muxes w') = map Mux_mux (muxes w)"
    and gm: "map Group_mux (groups w') = map Group_mux (groups w)"
  shows "wf_heap w'"
    "\<forall>i<length (scope_slices w). i \<noteq> k \<longrightarrow>
        elems w' (scope_slices w ! i) = elems w (scope_slices w ! i)"
    "elems w' s' = elems w (scope_slices w ! k) @ xs"
proof -
  let ?s = "scope_slices w ! k"
  have ok: "slice_ok w ?s" using wf_heap k by (rule wf_slices_ok)
  note eff = append_slice_effect[OF ok ap]
  have len: "length (arrays w) \<le> length (arrays w')" using eff(4) arr by simp
  have other: "slice_ok w' (scope_slices w ! i) \<and>
               elems w' (scope_slices w ! i) = elems w (scope_slices w ! i)"
    if i: "i < length (scope_slices w)" "i \<noteq> k" for i
  proof (rule elems_frame)
    show "slice_ok w (scope_slices w ! i)" using wf_heap i(1) by (rule wf_slices_ok)
    show "length (arrays w) \<le> length (arrays w')" by (rule len)
    show "\<forall>b\<in>set (bases (scope_slices w ! i)). arrays w' ! b = arrays w ! b"
    proof
      fix b assume b: "b \<in> set (bases (scope_slices w ! i))"
      have "b \<notin> set (bases ?s)" using wf_sep[OF wf_heap i(2) i(1) k] b by auto
      moreover have "b < length (arrays w)"
        using bases_lt[OF wf_slices_ok[OF wf_heap i(1)] b] .
      ultimately show "arrays w' ! b = arrays w ! b" using eff(5) arr by simp
    qed
  qed
  show "\<forall>i<length (scope_slices w). i \<noteq> k \<longrightarrow>
        elems w' (scope_slices w ! i) = elems w (scope_slices w ! i)"
    using other by blast
  have same: "elems w' s = elems w1 s" "slice_ok w' s = slice_ok w1 s" for s
    using arr by (cases s; simp add: elems_def slice_ok_def)+
  show "elems w' s' = elems w ?s @ xs" using eff(7) same by simp
  have ok': "slice_ok w' s'" using eff(6) same by simp
  have a: "list_all (slice_ok w') (scope_slices w')"
    unfolding sl list_all_length
  proof (intro allI impI)
    fix i assume "i < length ((scope_slices w)[k := s'])"
    then have i: "i < length (scope_slices w)" by simp
    show "slice_ok w' ((scope_slices w)[k := s'] ! i)"
      using other[of i] i ok' by (cases "i = k") simp_all
  qed
  have "distinct (concat ((map bases (scope_slices w))[k := bases s']))"
  proof (rule distinct_concat_update[where F = "{length (arrays w)}"])
    show "distinct (concat (map bases (scope_slices w)))" using wf_heap by (simp add: wf_heap_def)
    show "k < length (map bases (scope_slices w))" using k by simp
    show "distinct (bases s')" by (rule eff(9))
    show "set (bases s') \<subseteq> set (map bases (scope_slices w) ! k) \<union> {length (arrays w)}"
      using eff(8) k by simp
    show "{length (arrays w)} \<inter> \<Union> (set ` set (map bases (scope_slices w))) = {}"
      using wf_bases_lt[OF wf_heap] by fastforce
  qed
  then have b: "distinct (concat (map bases (scope_slices w')))"
    unfolding sl by (simp add: map_update)
  have c: "list_all (\<lambda>M. Mux_mux M < length (servemuxes w')) (muxes w')"
  proof -
    have "list_all (\<lambda>x. x < length (servemuxes w)) (map Mux_mux (muxes w))"
      using wf_heap by (simp add: wf_heap_def list.pred_map comp_def)
    then have "list_all (\<lambda>x. x < length (servemuxes w')) (map Mux_mux (muxes w'))"
      using sm mm by simp
    then show ?thesis by (simp add: list.pred_map comp_def)
  qed
  have lm: "length (muxes w') = length (muxes w)"
    using mm by (metis length_map)
  have d: "list_all (\<lambda>G. Group_mux G < length (muxes w')) (groups w')"
  proof -
    have "list_all (\<lambda>x. x < length (muxes w)) (map Group_mux (groups w))"
      using wf_heap by (simp add: wf_heap_def list.pred_map comp_def)
    then have "list_all (\<lambda>x. x < length (muxes w')) (map Group_mux (groups w'))"
      using lm gm by simp
    then show ?thesis by (simp add: list.pred_map comp_def)
  qed
  show "wf_heap w'" using a b c d by (simp add: wf_heap_def)
qed

lemma Use_check_ok: "Use_check mw = Inr () \<longleftrightarrow> list_all (\<lambda>m. m \<noteq> None) mw"
  by (induction mw) (auto split: option.splits)

lemma Use_check_bad: "Use_check mw = Inl e \<longleftrightarrow> e = NilMiddleware \<and> \<not> list_all (\<lambda>m. m \<noteq> None) mw"
  by (induction mw) (auto split: option.splits)

lemma slot_lt: "valid_ref w r \<Longrightarrow> slot w r < length (scope_slices w)"
  by (cases r) (auto simp add: valid_ref_def slot_def scope_slices_def)

lemma slot_nth: "valid_ref w r \<Longrightarrow> scope_slices w ! slot w r = scope_slice w r"
  by (cases r) (auto simp add: valid_ref_def slot_def scope_slices_def scope_slice_def nth_append)

lemma slot_inj: "valid_ref w r \<Longrightarrow> valid_ref w r' \<Longrightarrow> slot w r = slot w r' \<Longrightarrow> r = r'"
  by (cases r; cases r') (auto simp add: valid_ref_def slot_def)

lemma wf_scope_ok: "wf_heap w \<Longrightarrow> valid_ref w r \<Longrightarrow> slice_ok w (scope_slice w r)"
  using wf_slices_ok[of w "slot w r"] by (simp add: slot_lt slot_nth)

lemma wf_root_valid: "wf_heap w \<Longrightarrow> valid_ref w r \<Longrightarrow> root_of w r < length (muxes w)"
  by (cases r) (auto simp add: wf_heap_def valid_ref_def root_of_def list_all_length)

lemma wf_sink_valid: "wf_heap w \<Longrightarrow> valid_ref w r \<Longrightarrow> sink_of w r < length (servemuxes w)"
  using wf_root_valid[of w r] by (auto simp add: wf_heap_def sink_of_def list_all_length)

lemma Mux_Use_success:
  assumes wf_heap: "wf_heap w" and use: "Mux_Use gc m mw w = (Inr u, w')"
  shows "m < length (muxes w)" "list_all (\<lambda>x. x \<noteq> None) mw" "wf_heap w'"
    "servemuxes w' = servemuxes w" "groups w' = groups w"
    "map Mux_mux (muxes w') = map Mux_mux (muxes w)"
    "scope_slices w' = (scope_slices w)[m := scope_slice w' (MuxRef m)]"
    "scope_mw w' (MuxRef m) = scope_mw w (MuxRef m) @ mw"
    "\<forall>i<length (scope_slices w). i \<noteq> m \<longrightarrow>
        elems w' (scope_slices w ! i) = elems w (scope_slices w ! i)"
proof -
  have chk: "Use_check mw = Inr ()"
    using use by (auto simp add: Mux_Use_def split: sum.splits)
  then show nn: "list_all (\<lambda>x. x \<noteq> None) mw" by (simp add: Use_check_ok)
  show m: "m < length (muxes w)"
    using use chk by (auto simp add: Mux_Use_def split: if_splits)
  obtain s' w1 where ap: "append_slice gc w (Mux_middleware (muxes w ! m)) mw = (s', w1)"
    by (cases "append_slice gc w (Mux_middleware (muxes w ! m)) mw")
  have w': "w' = w1\<lparr>muxes := (muxes w1)[m := (muxes w1 ! m)\<lparr>Mux_middleware := s'\<rparr>]\<rparr>"
    using use chk m ap by (simp add: Mux_Use_def)
  have k: "m < length (scope_slices w)" using m by (simp add: scope_slices_def)
  have nth: "scope_slices w ! m = Mux_middleware (muxes w ! m)"
    using m by (simp add: scope_slices_def nth_append)
  have ap': "append_slice gc w (scope_slices w ! m) mw = (s', w1)" using ap nth by simp
  note eff = append_slice_effect[OF wf_slices_ok[OF wf_heap k] ap']
  have mux1: "muxes w1 = muxes w" and grp1: "groups w1 = groups w"
    and sm1: "servemuxes w1 = servemuxes w" using eff by simp_all
  show "servemuxes w' = servemuxes w" using w' sm1 by simp
  show "groups w' = groups w" using w' grp1 by simp
  show mm: "map Mux_mux (muxes w') = map Mux_mux (muxes w)"
    using w' mux1 m by (simp add: map_update list_update_same_conv)
  have sl0: "scope_slices w' = (scope_slices w)[m := s']"
    using w' mux1 grp1 m by (simp add: scope_slices_def map_update list_update_append1)
  have ss: "scope_slice w' (MuxRef m) = s'"
    using w' mux1 m by (simp add: scope_slice_def)
  show "scope_slices w' = (scope_slices w)[m := scope_slice w' (MuxRef m)]"
    using sl0 ss by simp
  have arr: "arrays w' = arrays w1" using w' by simp
  have sm: "length (servemuxes w') = length (servemuxes w)" using w' sm1 by simp
  have gm: "map Group_mux (groups w') = map Group_mux (groups w)" using w' grp1 by simp
  note upd = wf_update_slice[OF wf_heap k ap' arr sl0 sm mm gm]
  show "wf_heap w'" by (rule upd(1))
  show "\<forall>i<length (scope_slices w). i \<noteq> m \<longrightarrow>
        elems w' (scope_slices w ! i) = elems w (scope_slices w ! i)" by (rule upd(2))
  show "scope_mw w' (MuxRef m) = scope_mw w (MuxRef m) @ mw"
    using upd(3) ss nth by (simp add: scope_mw_def scope_slice_def)
qed

lemma Group_Use_success:
  assumes wf_heap: "wf_heap w" and use: "Group_Use gc g mw w = (Inr u, w')"
  shows "g < length (groups w)" "list_all (\<lambda>x. x \<noteq> None) mw" "wf_heap w'"
    "servemuxes w' = servemuxes w" "muxes w' = muxes w"
    "map Group_mux (groups w') = map Group_mux (groups w)"
    "map Group_prefix (groups w') = map Group_prefix (groups w)"
    "scope_slices w' = (scope_slices w)[length (muxes w) + g := scope_slice w' (GroupRef g)]"
    "scope_mw w' (GroupRef g) = scope_mw w (GroupRef g) @ mw"
    "\<forall>i<length (scope_slices w). i \<noteq> length (muxes w) + g \<longrightarrow>
        elems w' (scope_slices w ! i) = elems w (scope_slices w ! i)"
proof -
  have chk: "Use_check mw = Inr ()"
    using use by (auto simp add: Group_Use_def split: sum.splits)
  then show nn: "list_all (\<lambda>x. x \<noteq> None) mw" by (simp add: Use_check_ok)
  show g: "g < length (groups w)"
    using use chk by (auto simp add: Group_Use_def split: if_splits)
  obtain s' w1 where ap: "append_slice gc w (Group_middleware (groups w ! g)) mw = (s', w1)"
    by (cases "append_slice gc w (Group_middleware (groups w ! g)) mw")
  have w': "w' = w1\<lparr>groups := (groups w1)[g := (groups w1 ! g)\<lparr>Group_middleware := s'\<rparr>]\<rparr>"
    using use chk g ap by (simp add: Group_Use_def)
  let ?k = "length (muxes w) + g"
  have k: "?k < length (scope_slices w)" using g by (simp add: scope_slices_def)
  have nth: "scope_slices w ! ?k = Group_middleware (groups w ! g)"
    using g by (simp add: scope_slices_def nth_append)
  have ap': "append_slice gc w (scope_slices w ! ?k) mw = (s', w1)" using ap nth by simp
  note eff = append_slice_effect[OF wf_slices_ok[OF wf_heap k] ap']
  have mux1: "muxes w1 = muxes w" and grp1: "groups w1 = groups w"
    and sm1: "servemuxes w1 = servemuxes w" using eff by simp_all
  show "servemuxes w' = servemuxes w" using w' sm1 by simp
  show "muxes w' = muxes w" using w' mux1 by simp
  show gm: "map Group_mux (groups w') = map Group_mux (groups w)"
    using w' grp1 g by (simp add: map_update list_update_same_conv)
  show "map Group_prefix (groups w') = map Group_prefix (groups w)"
    using w' grp1 g by (simp add: map_update list_update_same_conv)
  have sl0: "scope_slices w' = (scope_slices w)[?k := s']"
    using w' mux1 grp1 g by (simp add: scope_slices_def map_update list_update_append)
  have ss: "scope_slice w' (GroupRef g) = s'"
    using w' grp1 g by (simp add: scope_slice_def)
  show "scope_slices w' = (scope_slices w)[?k := scope_slice w' (GroupRef g)]"
    using sl0 ss by simp
  have arr: "arrays w' = arrays w1" using w' by simp
  have sm: "length (servemuxes w') = length (servemuxes w)" using w' sm1 by simp
  have mm: "map Mux_mux (muxes w') = map Mux_mux (muxes w)" using w' mux1 by simp
  note upd = wf_update_slice[OF wf_heap k ap' arr sl0 sm mm gm]
  show "wf_heap w'" by (rule upd(1))
  show "\<forall>i<length (scope_slices w). i \<noteq> ?k \<longrightarrow>
        elems w' (scope_slices w ! i) = elems w (scope_slices w ! i)" by (rule upd(2))
  show "scope_mw w' (GroupRef g) = scope_mw w (GroupRef g) @ mw"
    using upd(3) ss nth by (simp add: scope_mw_def scope_slice_def)
qed

subsection \<open>Use\<close>

lemma Router_Use_success:
  assumes wf_heap: "wf_heap w" and use: "Router_Use gc r mw w = (Inr u, w')"
  shows "valid_ref w r" "list_all (\<lambda>x. x \<noteq> None) mw" "wf_heap w'"
    "servemuxes w' = servemuxes w"
    "length (muxes w') = length (muxes w)" "length (groups w') = length (groups w)"
    "scope_mw w' r = scope_mw w r @ mw"
    "\<And>r'. valid_ref w r' \<Longrightarrow> r' \<noteq> r \<Longrightarrow> scope_mw w' r' = scope_mw w r'"
    "\<And>r'. valid_ref w r' \<Longrightarrow> root_of w' r' = root_of w r'"
    "\<And>r'. valid_ref w r' \<Longrightarrow> sink_of w' r' = sink_of w r'"
    "\<And>r'. scope_prefix w' r' = scope_prefix w r' \<or> \<not> valid_ref w r'"
proof -
  have core: "valid_ref w r \<and> list_all (\<lambda>x. x \<noteq> None) mw \<and> wf_heap w' \<and> servemuxes w' = servemuxes w
      \<and> map Mux_mux (muxes w') = map Mux_mux (muxes w)
      \<and> map Group_mux (groups w') = map Group_mux (groups w)
      \<and> map Group_prefix (groups w') = map Group_prefix (groups w)
      \<and> scope_slices w' = (scope_slices w)[slot w r := scope_slice w' r]
      \<and> scope_mw w' r = scope_mw w r @ mw
      \<and> (\<forall>i<length (scope_slices w). i \<noteq> slot w r \<longrightarrow>
            elems w' (scope_slices w ! i) = elems w (scope_slices w ! i))"
  proof (cases r)
    case (MuxRef m)
    then have "Mux_Use gc m mw w = (Inr u, w')" using use by (simp add: Router_Use_def)
    from Mux_Use_success[OF wf_heap this] show ?thesis
      using MuxRef by (simp add: valid_ref_def slot_def)
  next
    case (GroupRef g)
    then have "Group_Use gc g mw w = (Inr u, w')" using use by (simp add: Router_Use_def)
    from Group_Use_success[OF wf_heap this] show ?thesis
      using GroupRef by (simp add: valid_ref_def slot_def)
  qed
  show v: "valid_ref w r" and "list_all (\<lambda>x. x \<noteq> None) mw" and "wf_heap w'"
    and "servemuxes w' = servemuxes w" and "scope_mw w' r = scope_mw w r @ mw"
    using core by simp_all
  have mm: "map Mux_mux (muxes w') = map Mux_mux (muxes w)"
    and gm: "map Group_mux (groups w') = map Group_mux (groups w)"
    and gp: "map Group_prefix (groups w') = map Group_prefix (groups w)"
    using core by simp_all
  show lm: "length (muxes w') = length (muxes w)" using mm by (metis length_map)
  show lg: "length (groups w') = length (groups w)" using gm by (metis length_map)
  have vv: "valid_ref w' r' = valid_ref w r'" for r'
    using lm lg by (cases r') (simp_all add: valid_ref_def)
  have sl: "slot w' r' = slot w r'" for r'
    using lm by (cases r') (simp_all add: slot_def)
  show "scope_mw w' r' = scope_mw w r'" if r': "valid_ref w r'" "r' \<noteq> r" for r'
  proof -
    have ne: "slot w r' \<noteq> slot w r" using slot_inj[OF r'(1) v] r'(2) by auto
    have "scope_slice w' r' = scope_slices w' ! slot w' r'"
      using slot_nth[of w' r'] vv r'(1) by simp
    also have "\<dots> = scope_slices w ! slot w r'"
      using core ne sl by simp
    finally have eq: "scope_slice w' r' = scope_slice w r'"
      using slot_nth[OF r'(1)] by simp
    have "elems w' (scope_slices w ! slot w r') = elems w (scope_slices w ! slot w r')"
      using core slot_lt[OF r'(1)] ne by blast
    then show ?thesis using eq slot_nth[OF r'(1)] by (simp add: scope_mw_def)
  qed
  show ro: "root_of w' r' = root_of w r'" if r': "valid_ref w r'" for r'
  proof (cases r')
    case (MuxRef m)
    then show ?thesis by (simp add: root_of_def)
  next
    case (GroupRef g)
    then have "g < length (groups w)" using r' by (simp add: valid_ref_def)
    then have "map Group_mux (groups w') ! g = map Group_mux (groups w) ! g"
      using gm by simp
    then show ?thesis using GroupRef \<open>g < length (groups w)\<close> lg by (simp add: root_of_def)
  qed
  show "sink_of w' r' = sink_of w r'" if r': "valid_ref w r'" for r'
  proof -
    have lt: "root_of w r' < length (muxes w)" using wf_heap r' by (rule wf_root_valid)
    have "map Mux_mux (muxes w') ! root_of w r' = map Mux_mux (muxes w) ! root_of w r'"
      using mm by simp
    then show ?thesis using ro[OF r'] lt lm by (simp add: sink_of_def)
  qed
  show "scope_prefix w' r' = scope_prefix w r' \<or> \<not> valid_ref w r'" for r'
  proof (cases r')
    case (MuxRef m)
    then show ?thesis by (simp add: scope_prefix_def)
  next
    case (GroupRef g)
    show ?thesis
    proof (cases "g < length (groups w)")
      case True
      then have "map Group_prefix (groups w') ! g = map Group_prefix (groups w) ! g"
        using gp by simp
      then show ?thesis using GroupRef True lg by (simp add: scope_prefix_def)
    next
      case False
      then show ?thesis using GroupRef by (simp add: valid_ref_def)
    qed
  qed
qed

lemma Router_Use_panic: "Router_Use gc r mw w = (Inl e, w') \<Longrightarrow> w' = w"
  by (cases r)
    (auto simp add: Router_Use_def Mux_Use_def Group_Use_def split: sum.splits if_splits prod.splits)

lemma Router_Use_nil:
  "\<not> list_all (\<lambda>x. x \<noteq> None) mw \<Longrightarrow> Router_Use gc r mw w = (Inl NilMiddleware, w)"
proof -
  assume "\<not> list_all (\<lambda>x. x \<noteq> None) mw"
  then have "Use_check mw = Inl NilMiddleware"
    using Use_check_ok[of mw] Use_check_bad[of mw] by (cases "Use_check mw") auto
  then show ?thesis
    by (cases r) (simp_all add: Router_Use_def Mux_Use_def Group_Use_def)
qed

lemma Router_Use_total:
  assumes "valid_ref w r" "list_all (\<lambda>x. x \<noteq> None) mw"
  shows "\<exists>w'. Router_Use gc r mw w = (Inr (), w')"
proof -
  have "Use_check mw = Inr ()" using assms(2) by (simp add: Use_check_ok)
  then show ?thesis using assms(1)
    by (cases r)
      (auto simp add: Router_Use_def Mux_Use_def Group_Use_def valid_ref_def split: prod.splits)
qed

subsection \<open>Group\<close>

lemma wf_new_group:
  assumes wf_heap: "wf_heap w" and k: "k < length (scope_slices w)"
    and mm: "mm < length (muxes w)"
    and w': "w' = w\<lparr>arrays := arrays w @ [elems w (scope_slices w ! k)],
                    groups := groups w @ [\<lparr>Group_mux = mm, Group_prefix = p,
                      Group_middleware = Slice (length (arrays w)) (len (scope_slices w ! k))
                                               (len (scope_slices w ! k))\<rparr>]\<rparr>"
  shows "wf_heap w'"
    "\<forall>i<length (scope_slices w). elems w' (scope_slices w ! i) = elems w (scope_slices w ! i)"
    "elems w' (Slice (length (arrays w)) (len (scope_slices w ! k)) (len (scope_slices w ! k)))
       = elems w (scope_slices w ! k)"
proof -
  let ?src = "scope_slices w ! k"
  let ?new = "Slice (length (arrays w)) (len ?src) (len ?src)"
  have ok: "slice_ok w ?src" using wf_heap k by (rule wf_slices_ok)
  have arr: "arrays w' = arrays w @ [elems w ?src]" using w' by simp
  have sl: "scope_slices w' = scope_slices w @ [?new]"
    using w' by (simp add: scope_slices_def)
  have old: "slice_ok w' (scope_slices w ! i) \<and>
             elems w' (scope_slices w ! i) = elems w (scope_slices w ! i)"
    if i: "i < length (scope_slices w)" for i
  proof (rule elems_frame)
    show "slice_ok w (scope_slices w ! i)" using wf_heap i by (rule wf_slices_ok)
    show "length (arrays w) \<le> length (arrays w')" using arr by simp
    show "\<forall>b\<in>set (bases (scope_slices w ! i)). arrays w' ! b = arrays w ! b"
      using bases_lt[OF wf_slices_ok[OF wf_heap i]] arr by (simp add: nth_append)
  qed
  show "\<forall>i<length (scope_slices w). elems w' (scope_slices w ! i) = elems w (scope_slices w ! i)"
    using old by blast
  show en: "elems w' ?new = elems w ?src"
    using arr length_elems[OF ok] by (simp add: elems_def)
  have okn: "slice_ok w' ?new"
    using arr length_elems[OF ok] by (simp add: slice_ok_def)
  have "list_all (slice_ok w') (scope_slices w)"
    using old by (simp add: list_all_length)
  then have a: "list_all (slice_ok w') (scope_slices w')"
    unfolding sl using okn by simp
  have "length (arrays w) \<notin> \<Union> (set ` set (map bases (scope_slices w)))"
    using wf_bases_lt[OF wf_heap, of "length (arrays w)"] by blast
  then have b: "distinct (concat (map bases (scope_slices w')))"
    unfolding sl using wf_heap by (simp add: wf_heap_def)
  have c: "list_all (\<lambda>M. Mux_mux M < length (servemuxes w')) (muxes w')"
    using wf_heap w' by (simp add: wf_heap_def)
  have d: "list_all (\<lambda>G. Group_mux G < length (muxes w')) (groups w')"
    using wf_heap w' mm by (simp add: wf_heap_def)
  show "wf_heap w'" using a b c d by (simp add: wf_heap_def)
qed

lemma Router_Group_eq:
  assumes wf_heap: "wf_heap w" and v: "valid_ref w r" and p: "prefix = [] \<or> HasPrefix prefix ''/''"
  shows "Router_Group r prefix w =
     (Inr (GroupRef (length (groups w))),
      w\<lparr>arrays := arrays w @ [elems w (scope_slice w r)],
        groups := groups w @ [\<lparr>Group_mux = root_of w r, Group_prefix = child_prefix w r prefix,
          Group_middleware = Slice (length (arrays w)) (len (scope_slice w r))
                                   (len (scope_slice w r))\<rparr>]\<rparr>)"
proof (cases r)
  case (MuxRef m)
  then have m: "m < length (muxes w)" using v by (simp add: valid_ref_def)
  have ok: "slice_ok w (Mux_middleware (muxes w ! m))"
    using wf_scope_ok[OF wf_heap v] MuxRef by (simp add: scope_slice_def)
  obtain mw w1 where mk: "make_slice (len (Mux_middleware (muxes w ! m))) w = (mw, w1)"
    by (cases "make_slice (len (Mux_middleware (muxes w ! m))) w")
  have w1: "muxes w1 = muxes w" using mk by (auto simp add: make_slice_def)
  note mc = make_copy_effect[OF ok mk]
  show ?thesis using MuxRef m p mk w1 mc
    by (simp add: Router_Group_def Mux_Group_def scope_slice_def root_of_def child_prefix_def
        scope_prefix_def)
next
  case (GroupRef g)
  then have g: "g < length (groups w)" using v by (simp add: valid_ref_def)
  have ok: "slice_ok w (Group_middleware (groups w ! g))"
    using wf_scope_ok[OF wf_heap v] GroupRef by (simp add: scope_slice_def)
  obtain mw w1 where mk: "make_slice (len (Group_middleware (groups w ! g))) w = (mw, w1)"
    by (cases "make_slice (len (Group_middleware (groups w ! g))) w")
  have w1: "groups w1 = groups w" using mk by (auto simp add: make_slice_def)
  note mc = make_copy_effect[OF ok mk]
  show ?thesis using GroupRef g p mk w1 mc
    by (simp add: Router_Group_def Group_Group_def scope_slice_def root_of_def child_prefix_def
        scope_prefix_def)
qed

lemma Router_Group_panic: "Router_Group r prefix w = (Inl e, w') \<Longrightarrow> w' = w"
  by (cases r)
    (auto simp add: Router_Group_def Mux_Group_def Group_Group_def Let_def
      split: if_splits prod.splits)

lemma Router_Group_bad_prefix:
  "prefix \<noteq> [] \<Longrightarrow> \<not> HasPrefix prefix ''/'' \<Longrightarrow> Router_Group r prefix w = (Inl InvalidPrefix, w)"
  by (cases r) (simp_all add: Router_Group_def Mux_Group_def Group_Group_def)

lemma Router_Group_Inr:
  "Router_Group r prefix w = (Inr G, w') \<Longrightarrow> valid_ref w r \<and> (prefix = [] \<or> HasPrefix prefix ''/'')"
  by (cases r)
    (auto simp add: Router_Group_def Mux_Group_def Group_Group_def valid_ref_def
      split: if_splits)

lemma Router_Group_success:
  assumes wf_heap: "wf_heap w" and grp: "Router_Group r prefix w = (Inr G, w')"
  shows "valid_ref w r" "prefix = [] \<or> HasPrefix prefix ''/''"
    "G = GroupRef (length (groups w))" "wf_heap w'" "valid_ref w' G" "\<not> valid_ref w G"
    "servemuxes w' = servemuxes w" "muxes w' = muxes w"
    "length (groups w') = Suc (length (groups w))"
    "scope_mw w' G = scope_mw w r" "root_of w' G = root_of w r" "sink_of w' G = sink_of w r"
    "scope_prefix w' G = Some (child_prefix w r prefix)"
    "\<And>r'. valid_ref w r' \<Longrightarrow> valid_ref w' r' \<and> scope_mw w' r' = scope_mw w r' \<and> root_of w' r' = root_of w r'
        \<and> sink_of w' r' = sink_of w r' \<and> scope_prefix w' r' = scope_prefix w r'"
proof -
  show v: "valid_ref w r" and p: "prefix = [] \<or> HasPrefix prefix ''/''"
    using Router_Group_Inr[OF grp] by simp_all
  let ?src = "scope_slice w r"
  let ?new = "Slice (length (arrays w)) (len ?src) (len ?src)"
  have eq: "(Inr G, w') = (Inr (GroupRef (length (groups w))),
      w\<lparr>arrays := arrays w @ [elems w ?src],
        groups := groups w @ [\<lparr>Group_mux = root_of w r, Group_prefix = child_prefix w r prefix,
          Group_middleware = ?new\<rparr>]\<rparr>)"
    using Router_Group_eq[OF wf_heap v p] grp by simp
  then show G: "G = GroupRef (length (groups w))" by simp
  have w': "w' = w\<lparr>arrays := arrays w @ [elems w (scope_slices w ! slot w r)],
        groups := groups w @ [\<lparr>Group_mux = root_of w r, Group_prefix = child_prefix w r prefix,
          Group_middleware = Slice (length (arrays w)) (len (scope_slices w ! slot w r))
             (len (scope_slices w ! slot w r))\<rparr>]\<rparr>"
    using eq slot_nth[OF v] by simp
  note ng = wf_new_group[OF wf_heap slot_lt[OF v] wf_root_valid[OF wf_heap v] w']
  show "wf_heap w'" by (rule ng(1))
  show "valid_ref w' G" using G w' by (simp add: valid_ref_def)
  show "\<not> valid_ref w G" using G by (simp add: valid_ref_def)
  show "servemuxes w' = servemuxes w" using w' by simp
  show mx: "muxes w' = muxes w" using w' by simp
  show "length (groups w') = Suc (length (groups w))" using w' by simp
  show "scope_mw w' G = scope_mw w r"
    using ng(3) G w' slot_nth[OF v] by (simp add: scope_mw_def scope_slice_def)
  show rg: "root_of w' G = root_of w r" using G w' by (simp add: root_of_def)
  show "sink_of w' G = sink_of w r" using rg mx by (simp add: sink_of_def)
  show "scope_prefix w' G = Some (child_prefix w r prefix)"
    using G w' by (simp add: scope_prefix_def)
  show "valid_ref w' r' \<and> scope_mw w' r' = scope_mw w r' \<and> root_of w' r' = root_of w r'
        \<and> sink_of w' r' = sink_of w r' \<and> scope_prefix w' r' = scope_prefix w r'"
    if r': "valid_ref w r'" for r'
  proof -
    have ss: "scope_slice w' r' = scope_slice w r'"
      using r' w' by (cases r') (simp_all add: scope_slice_def valid_ref_def nth_append)
    have "elems w' (scope_slices w ! slot w r') = elems w (scope_slices w ! slot w r')"
      using ng(2) slot_lt[OF r'] by blast
    then have a: "scope_mw w' r' = scope_mw w r'"
      using ss slot_nth[OF r'] by (simp add: scope_mw_def)
    have b: "root_of w' r' = root_of w r'"
      using r' w' by (cases r') (simp_all add: root_of_def valid_ref_def nth_append)
    have c: "scope_prefix w' r' = scope_prefix w r'"
      using r' w' by (cases r') (simp_all add: scope_prefix_def valid_ref_def nth_append)
    have d: "valid_ref w' r'"
      using r' w' by (cases r') (simp_all add: valid_ref_def)
    show ?thesis using a b c d mx by (simp add: sink_of_def)
  qed
qed

subsection \<open>Handle and With\<close>

lemma same_objects:
  assumes "arrays w' = arrays w" "muxes w' = muxes w" "groups w' = groups w"
  shows "valid_ref w' r = valid_ref w r" "scope_mw w' r = scope_mw w r"
    "root_of w' r = root_of w r" "sink_of w' r = sink_of w r"
    "scope_prefix w' r = scope_prefix w r" "full_pattern w' r pat = full_pattern w r pat"
proof -
  have e: "elems w' s = elems w s" for s
    using assms(1) by (cases s; simp add: elems_def)
  show "valid_ref w' r = valid_ref w r" "scope_mw w' r = scope_mw w r"
    "root_of w' r = root_of w r" "sink_of w' r = sink_of w r"
    "scope_prefix w' r = scope_prefix w r" "full_pattern w' r pat = full_pattern w r pat"
    using assms e
    by (cases r; simp add: valid_ref_def scope_mw_def scope_slice_def root_of_def sink_of_def
        scope_prefix_def full_pattern_def)+
qed

lemma Router_Handle_eq:
  assumes wf: "wf_heap w" and v: "valid_ref w r"
  shows "Router_Handle acc r pat h w =
     (case wrap h (scope_mw w r) of
        Inl e \<Rightarrow> (Inl e, w)
      | Inr h' \<Rightarrow>
          if acc (servemuxes w ! sink_of w r) (full_pattern w r pat) h'
          then (Inr (), w\<lparr>servemuxes := (servemuxes w)[sink_of w r :=
                              servemuxes w ! sink_of w r @ [(full_pattern w r pat, h')]]\<rparr>)
          else (Inl ServeMuxPanic, w))"
proof -
  have rt: "root_of w r < length (muxes w)" using wf v by (rule wf_root_valid)
  have sk: "sink_of w r < length (servemuxes w)" using wf v by (rule wf_sink_valid)
  show ?thesis
  proof (cases r)
    case (MuxRef m)
    then show ?thesis using rt sk
      by (simp add: Router_Handle_def Mux_Handle_def Mux_wrap_def ServeMux_Handle_def
          scope_mw_def scope_slice_def root_of_def sink_of_def full_pattern_def scope_prefix_def
          split: sum.splits)
  next
    case (GroupRef g)
    then have "g < length (groups w)" using v by (simp add: valid_ref_def)
    then show ?thesis using GroupRef rt sk
      by (simp add: Router_Handle_def Group_Handle_def ServeMux_Handle_def Let_def
          scope_mw_def scope_slice_def root_of_def sink_of_def full_pattern_def scope_prefix_def
          split: sum.splits)
  qed
qed

lemma Router_Handle_panic: "Router_Handle acc r pat h w = (Inl e, w') \<Longrightarrow> w' = w"
  by (cases r)
    (auto simp add: Router_Handle_def Mux_Handle_def Group_Handle_def ServeMux_Handle_def Let_def
      split: if_splits sum.splits)

lemma Router_Handle_Inr: "Router_Handle acc r pat h w = (Inr u, w') \<Longrightarrow> valid_ref w r"
  by (cases r)
    (auto simp add: Router_Handle_def Mux_Handle_def Group_Handle_def valid_ref_def
      split: if_splits)

lemma Router_Handle_success:
  assumes wf: "wf_heap w" and hd: "Router_Handle acc r pat h w = (Inr u, w')"
  shows "valid_ref w r"
    "\<exists>h'. wrap h (scope_mw w r) = Inr h' \<and>
          servemuxes w' = (servemuxes w)[sink_of w r :=
                              servemuxes w ! sink_of w r @ [(full_pattern w r pat, h')]]"
    "arrays w' = arrays w" "muxes w' = muxes w" "groups w' = groups w" "wf_heap w'"
proof -
  show v: "valid_ref w r" using hd by (rule Router_Handle_Inr)
  note eq = Router_Handle_eq[OF wf v, of acc pat h]
  obtain h' where h': "wrap h (scope_mw w r) = Inr h'"
    using eq hd by (cases "wrap h (scope_mw w r)") auto
  have w': "w' = w\<lparr>servemuxes := (servemuxes w)[sink_of w r :=
                              servemuxes w ! sink_of w r @ [(full_pattern w r pat, h')]]\<rparr>"
    using eq hd h' by (auto split: if_splits)
  show "\<exists>h'. wrap h (scope_mw w r) = Inr h' \<and>
          servemuxes w' = (servemuxes w)[sink_of w r :=
                              servemuxes w ! sink_of w r @ [(full_pattern w r pat, h')]]"
    using h' w' by simp
  show a: "arrays w' = arrays w" and m: "muxes w' = muxes w" and g: "groups w' = groups w"
    using w' by simp_all
  have l: "length (servemuxes w') = length (servemuxes w)" using w' by simp
  have "slice_ok w' s = slice_ok w s" for s
    using a by (cases s; simp add: slice_ok_def)
  then have so: "slice_ok w' = slice_ok w" by (rule ext)
  show "wf_heap w'" using wf by (simp add: wf_heap_def scope_slices_def so m g l)
qed

lemma Router_With_eq:
  "Router_With gc r mw w =
     (case Router_Group r [] w of
        (Inl e, w1) \<Rightarrow> (Inl e, w1)
      | (Inr g, w1) \<Rightarrow>
          (case Router_Use gc g mw w1 of
             (Inl e, w2) \<Rightarrow> (Inl e, w2)
           | (Inr u, w2) \<Rightarrow> (Inr g, w2)))"
  by (cases r) (simp_all add: Router_With_def Router_Group_def Mux_With_def Group_With_def)

lemma Router_With_success:
  assumes wf: "wf_heap w" and wi: "Router_With gc r mw w = (Inr G, w')"
  shows "valid_ref w r" "list_all (\<lambda>x. x \<noteq> None) mw"
    "G = GroupRef (length (groups w))" "wf_heap w'" "valid_ref w' G" "\<not> valid_ref w G"
    "servemuxes w' = servemuxes w" "muxes w' = muxes w"
    "scope_mw w' G = scope_mw w r @ mw" "root_of w' G = root_of w r" "sink_of w' G = sink_of w r"
    "scope_prefix w' G = Some (child_prefix w r [])"
    "\<And>r'. valid_ref w r' \<Longrightarrow> valid_ref w' r' \<and> scope_mw w' r' = scope_mw w r' \<and> root_of w' r' = root_of w r'
        \<and> sink_of w' r' = sink_of w r' \<and> scope_prefix w' r' = scope_prefix w r'"
proof -
  obtain w1 where grp: "Router_Group r [] w = (Inr G, w1)"
    and use: "Router_Use gc G mw w1 = (Inr (), w')"
    using wi unfolding Router_With_eq
    by (auto split: prod.splits sum.splits)
  note g = Router_Group_success[OF wf grp]
  note u = Router_Use_success[OF g(4) use]
  show "valid_ref w r" by (rule g(1))
  show "list_all (\<lambda>x. x \<noteq> None) mw" by (rule u(2))
  show G: "G = GroupRef (length (groups w))" by (rule g(3))
  show "wf_heap w'" by (rule u(3))
  show "valid_ref w' G" using g(5) u(6) G by (simp add: valid_ref_def)
  show "\<not> valid_ref w G" by (rule g(6))
  show "servemuxes w' = servemuxes w" using g(7) u(4) by simp
  have "Group_Use gc (length (groups w)) mw w1 = (Inr (), w')"
    using use G by (simp add: Router_Use_def)
  from Group_Use_success(5)[OF g(4) this]
  show "muxes w' = muxes w" using g(8) by simp
  show "scope_mw w' G = scope_mw w r @ mw" using u(7) g(10) by simp
  show "root_of w' G = root_of w r" using u(9)[OF g(5)] g(11) by simp
  show "sink_of w' G = sink_of w r" using u(10)[OF g(5)] g(12) by simp
  show "scope_prefix w' G = Some (child_prefix w r [])" using u(11)[of G] g(5) g(13) by simp
  show "valid_ref w' r' \<and> scope_mw w' r' = scope_mw w r' \<and> root_of w' r' = root_of w r'
        \<and> sink_of w' r' = sink_of w r' \<and> scope_prefix w' r' = scope_prefix w r'"
    if r': "valid_ref w r'" for r'
  proof -
    note o = g(14)[OF r']
    have v1: "valid_ref w1 r'" using o by simp
    have ne: "r' \<noteq> G" using r' g(6) by auto
    have "valid_ref w' r'" using v1 u(5) u(6) by (cases r') (simp_all add: valid_ref_def)
    then show ?thesis using o u(8)[OF v1 ne] u(9)[OF v1] u(10)[OF v1] u(11)[of r'] v1 by simp
  qed
qed

lemma Router_With_panic:
  assumes wf: "wf_heap w" and wi: "Router_With gc r mw w = (Inl e, w')"
  shows "w' = w \<or> (\<exists>G. Router_Group r [] w = (Inr G, w'))"
proof (cases "Router_Group r [] w")
  case (Pair res w1)
  show ?thesis
  proof (cases res)
    case (Inl e1)
    then have "w' = w1" using wi Pair unfolding Router_With_eq by simp
    moreover have "w1 = w" using Pair Inl Router_Group_panic[of r "[]" w e1 w1] by simp
    ultimately show ?thesis by simp
  next
    case (Inr G)
    obtain res2 w2 where use: "Router_Use gc G mw w1 = (res2, w2)"
      by (cases "Router_Use gc G mw w1")
    then obtain e2 where "res2 = Inl e2" "w' = w2"
      using wi Pair Inr unfolding Router_With_eq by (cases res2) auto
    then have "w' = w1" using use Router_Use_panic[of gc G mw w1 e2 w2] by simp
    then show ?thesis using Pair Inr by auto
  qed
qed

subsection \<open>Patterns under an empty prefix; sequences of derivations\<close>

lemma Index_Some:
  "Index s sep = Some i \<Longrightarrow> s = take i s @ sep @ drop (i + length sep) s"
proof (induction s arbitrary: i)
  case Nil
  then show ?case by (simp split: if_splits)
next
  case (Cons c cs)
  show ?case
  proof (cases "HasPrefix (c # cs) sep")
    case True
    then have i: "i = 0" using Cons.prems by simp
    have "c # cs = take (length sep) (c # cs) @ drop (length sep) (c # cs)" by simp
    then show ?thesis using True i unfolding HasPrefix_def by simp
  next
    case False
    then obtain j where j: "Index cs sep = Some j" "i = Suc j"
      using Cons.prems by (auto split: option.splits)
    then show ?thesis using Cons.IH[of j] by simp
  qed
qed

lemma splitMethodPath_recompose:
  assumes "splitMethodPath p = (m, path)"
  shows "(m = [] \<and> path = p) \<or> (m \<noteq> [] \<and> p = m @ '' '' @ path)"
proof (cases "Index p '' ''")
  case None
  then show ?thesis using assms by (simp add: splitMethodPath_def Cut_def)
next
  case (Some i)
  have p: "p = take i p @ '' '' @ drop (i + 1) p" using Index_Some[OF Some] by simp
  show ?thesis
  proof (cases "m = []")
    case True
    then show ?thesis using assms Some
      by (auto simp add: splitMethodPath_def Cut_def Method_defs split: if_splits)
  next
    case False
    then have "m = take i p \<and> path = drop (i + 1) p" using assms Some
      by (auto simp add: splitMethodPath_def Cut_def split: if_splits)
    then show ?thesis using False p by simp
  qed
qed

lemma joinPattern_empty_prefix:
  "joinPattern [] p = p \<longleftrightarrow> HasPrefix (snd (splitMethodPath p)) ''/''"
proof -
  obtain m path where sp: "splitMethodPath p = (m, path)" by (cases "splitMethodPath p")
  have t: "TrimSuffix [] ''/'' = []" by (simp add: TrimSuffix_def HasSuffix_def)
  from splitMethodPath_recompose[OF sp] show ?thesis
    by (auto simp add: joinPattern_def sp t)
qed

lemma joinPattern_empty_pattern: "joinPattern p [] = TrimSuffix p ''/'' @ ''/''"
  by (simp add: joinPattern_def splitMethodPath_def Cut_def HasPrefix_def)

lemma TrimSuffix_snoc_slash: "TrimSuffix (x @ ''/'') ''/'' = x"
  by (simp add: TrimSuffix_def HasSuffix_def)

lemma joinPattern_join_empty: "joinPattern (joinPattern p []) pat = joinPattern p pat"
  by (simp add: joinPattern_def[of _ pat] joinPattern_empty_pattern TrimSuffix_snoc_slash)

lemma joinPattern_slash_prefix: "joinPattern ''/'' pat = joinPattern [] pat"
  by (simp add: joinPattern_def TrimSuffix_def HasSuffix_def)

lemma do_step_success:
  assumes wf: "wf_heap w" and st: "do_step gc st r w = (Inr r1, w1)"
  shows "valid_ref w r" "wf_heap w1" "valid_ref w1 r1" "\<not> valid_ref w r1"
    "r1 = GroupRef (length (groups w))"
    "servemuxes w1 = servemuxes w" "muxes w1 = muxes w"
    "root_of w1 r1 = root_of w r" "sink_of w1 r1 = sink_of w r"
    "\<And>r'. valid_ref w r' \<Longrightarrow> valid_ref w1 r' \<and> scope_mw w1 r' = scope_mw w r' \<and> root_of w1 r' = root_of w r'
        \<and> sink_of w1 r' = sink_of w r' \<and> scope_prefix w1 r' = scope_prefix w r'"
proof -
  have all: "valid_ref w r \<and> wf_heap w1 \<and> valid_ref w1 r1 \<and> \<not> valid_ref w r1
    \<and> r1 = GroupRef (length (groups w))
    \<and> servemuxes w1 = servemuxes w \<and> muxes w1 = muxes w
    \<and> root_of w1 r1 = root_of w r \<and> sink_of w1 r1 = sink_of w r
    \<and> (\<forall>r'. valid_ref w r' \<longrightarrow> valid_ref w1 r' \<and> scope_mw w1 r' = scope_mw w r' \<and> root_of w1 r' = root_of w r'
        \<and> sink_of w1 r' = sink_of w r' \<and> scope_prefix w1 r' = scope_prefix w r')"
  proof (cases st)
    case (Group_step prefix)
    then have "Router_Group r prefix w = (Inr r1, w1)" using st by (simp add: do_step_def)
    from Router_Group_success[OF wf this] show ?thesis by blast
  next
    case (With_step mw)
    then have "Router_With gc r mw w = (Inr r1, w1)" using st by (simp add: do_step_def)
    from Router_With_success[OF wf this] show ?thesis by blast
  qed
  then show "valid_ref w r" "wf_heap w1" "valid_ref w1 r1" "\<not> valid_ref w r1"
    "r1 = GroupRef (length (groups w))"
    "servemuxes w1 = servemuxes w" "muxes w1 = muxes w"
    "root_of w1 r1 = root_of w r" "sink_of w1 r1 = sink_of w r"
    "\<And>r'. valid_ref w r' \<Longrightarrow> valid_ref w1 r' \<and> scope_mw w1 r' = scope_mw w r' \<and> root_of w1 r' = root_of w r'
        \<and> sink_of w1 r' = sink_of w r' \<and> scope_prefix w1 r' = scope_prefix w r'"
    by blast+
qed

lemma derive_success:
  "wf_heap w \<Longrightarrow> valid_ref w r \<Longrightarrow> derive gc steps r w = (Inr r', w') \<Longrightarrow>
     wf_heap w' \<and> valid_ref w' r' \<and> root_of w' r' = root_of w r \<and> sink_of w' r' = sink_of w r
     \<and> servemuxes w' = servemuxes w \<and> muxes w' = muxes w
     \<and> (steps \<noteq> [] \<longrightarrow> (\<exists>g. r' = GroupRef g) \<and> \<not> valid_ref w r')
     \<and> (\<forall>r0. valid_ref w r0 \<longrightarrow> valid_ref w' r0 \<and> scope_mw w' r0 = scope_mw w r0
            \<and> root_of w' r0 = root_of w r0 \<and> sink_of w' r0 = sink_of w r0
            \<and> scope_prefix w' r0 = scope_prefix w r0)"
proof (induction steps arbitrary: r w)
  case Nil
  then show ?case by simp
next
  case (Cons st steps)
  obtain r1 w1 where st: "do_step gc st r w = (Inr r1, w1)"
    and rest: "derive gc steps r1 w1 = (Inr r', w')"
    using Cons.prems(3) by (auto split: prod.splits sum.splits)
  note s = do_step_success[OF Cons.prems(1) st]
  note ih = Cons.IH[OF s(2) s(3) rest]
  have old: "valid_ref w' r0 \<and> scope_mw w' r0 = scope_mw w r0
            \<and> root_of w' r0 = root_of w r0 \<and> sink_of w' r0 = sink_of w r0
            \<and> scope_prefix w' r0 = scope_prefix w r0" if r0: "valid_ref w r0" for r0
    using s(10)[OF r0] ih by simp
  have notold: "\<not> valid_ref w r'"
  proof (cases "steps = []")
    case True
    then show ?thesis using rest s(4) by simp
  next
    case False
    then obtain g where g: "r' = GroupRef g" "\<not> valid_ref w1 r'" using ih by blast
    then show ?thesis using s(5) s(3) by (auto simp add: valid_ref_def)
  qed
  have grp: "\<exists>g. r' = GroupRef g"
  proof (cases "steps = []")
    case True
    then show ?thesis using rest s(5) by auto
  next
    case False
    then show ?thesis using ih by blast
  qed
  show ?case using ih s old notold grp by simp
qed

end
